theory Spec2Isabelle
  imports Main "HOL-Library.Word" "HOL-Library.Sublist"
begin

section \<open>The order tracker: \<open>keepOrder\<close>\<close>

text \<open>
  \<open>keepOrder\<close> (lines 62 to 110 of whisper-to-influxdb.go) owns a nil-terminated singly linked
  list of cells \<open>inProgress{Path, Next}\<close>, reached from \<open>firstInProgress\<close>.  A nil pointer is
  \<open>None\<close>.  The list is local to the one goroutine that runs \<open>keepOrder\<close>, so no cell is shared
  and the in-place pointer updates are modelled by rebuilding the cells on the way.
\<close>

datatype inProgress = InProgress (Path: string) (Next: "inProgress option")

text \<open>The Paths of the cells, from \<open>firstInProgress\<close> on: the In-Progress Sequence.\<close>

fun paths :: "inProgress option \<Rightarrow> string list" where
  "paths None = []"
| "paths (Some (InProgress p n)) = p # paths n"

text \<open>
  Lines 81 to 84: walk from \<open>cur\<close> to the cell whose \<open>Next\<close> is nil and store \<open>i\<close> there.
\<close>

fun link_last :: "inProgress \<Rightarrow> inProgress \<Rightarrow> inProgress" where
  "link_last i (InProgress p None) = InProgress p (Some i)"
| "link_last i (InProgress p (Some n)) = InProgress p (Some (link_last i n))"

text \<open>Lines 73 to 85: the case \<open>found := <-foundFiles\<close>.\<close>

definition on_found :: "string \<Rightarrow> inProgress option \<Rightarrow> inProgress option" where
  "on_found found firstInProgress =
     (let i = InProgress found None in
      case firstInProgress of
        None \<Rightarrow> Some i
      | Some f \<Rightarrow> Some (link_last i f))"

text \<open>
  Lines 86 to 102: the case \<open>finished := <-finishedFiles\<close>.  The loop looks at the cells in
  order; at the first cell whose Path is \<open>finished\<close> it links the previous cell (or
  \<open>firstInProgress\<close>) to \<open>cur.Next\<close> and breaks; when it runs off the end nothing is changed.
  The argument is \<open>cur\<close>; the result is what the pointer that led to \<open>cur\<close> holds afterwards.
\<close>

fun on_finished :: "string \<Rightarrow> inProgress option \<Rightarrow> inProgress option" where
  "on_finished finished None = None"
| "on_finished finished (Some (InProgress p n)) =
     (if p = finished then n else Some (InProgress p (on_finished finished n)))"

text \<open>
  What arrives on the two file channels, and what arrives on any of the three channels of the
  \<open>select\<close>.  The exit code is a Go \<open>int\<close>; only its identity matters here.
\<close>

datatype file_msg = Found string | Finished string

datatype msg = File file_msg | Exit int

fun on_file :: "file_msg \<Rightarrow> inProgress option \<Rightarrow> inProgress option" where
  "on_file (Found k) first = on_found k first"
| "on_file (Finished k) first = on_finished k first"

text \<open>The list after a run of file messages, taken in arrival order.\<close>

definition track :: "file_msg list \<Rightarrow> inProgress option \<Rightarrow> inProgress option" where
  "track ms first = fold on_file ms first"

text \<open>
  The tracker as a whole.  It is either still in its \<open>select\<close> with some list, or it has
  called \<open>os.Exit(code)\<close> after printing the lines given.  Messages after an exit request are
  never received.
\<close>

datatype tracker = Waiting "inProgress option" | Exited "string list" int

definition resume_line :: "string \<Rightarrow> string" where
  "resume_line p =
     ''the next file that needed processing was '' @ p @ '' you can resume from there''"

definition on_exit :: "int \<Rightarrow> inProgress option \<Rightarrow> tracker" where
  "on_exit code firstInProgress =
     (case firstInProgress of
        None \<Rightarrow> Exited [] code
      | Some f \<Rightarrow> Exited [resume_line (Path f)] code)"

fun keepOrder :: "inProgress option \<Rightarrow> msg list \<Rightarrow> tracker" where
  "keepOrder first [] = Waiting first"
| "keepOrder first (File m # ms) = keepOrder (on_file m first) ms"
| "keepOrder first (Exit code # ms) = on_exit code first"

text \<open>The keys recorded and the keys completed by a run of file messages, in arrival order.\<close>

fun recorded :: "file_msg list \<Rightarrow> string list" where
  "recorded [] = []"
| "recorded (Found k # ms) = k # recorded ms"
| "recorded (Finished k # ms) = recorded ms"

fun completed :: "file_msg list \<Rightarrow> string list" where
  "completed [] = []"
| "completed (Found k # ms) = completed ms"
| "completed (Finished k # ms) = k # completed ms"

text \<open>
  \<open>completes_after seen ms\<close>: every completion in \<open>ms\<close> is for a key recorded earlier in \<open>ms\<close> or
  in \<open>seen\<close>.
\<close>

fun completes_after :: "string list \<Rightarrow> file_msg list \<Rightarrow> bool" where
  "completes_after seen [] = True"
| "completes_after seen (Found k # ms) = completes_after (k # seen) ms"
| "completes_after seen (Finished k # ms) = (k \<in> set seen \<and> completes_after seen ms)"

text \<open>
  A run in which each key is recorded at most once (a work unit has a unique key, its path,
  and the walk visits a path once) and is completed only after it has been recorded.
\<close>

definition consistent :: "file_msg list \<Rightarrow> bool" where
  "consistent ms = (distinct (recorded ms) \<and> completes_after [] ms)"

text \<open>\<open>precedes a b xs\<close>: \<open>b\<close> occurs in \<open>xs\<close> after the first occurrence of \<open>a\<close>.\<close>

fun precedes :: "'a \<Rightarrow> 'a \<Rightarrow> 'a list \<Rightarrow> bool" where
  "precedes a b [] = False"
| "precedes a b (x # xs) = (if x = a then b \<in> set xs else precedes a b xs)"

text \<open>
  \<open>erased c r s\<close>: the list \<open>s\<close> is \<open>r\<close> with some elements taken out, each of them a key in
  \<open>c\<close>.  It relates the recorded keys, the completed keys and the sequence of any run, also one
  that records a key twice or completes a key that was never recorded.
\<close>

inductive erased :: "string list \<Rightarrow> string list \<Rightarrow> string list \<Rightarrow> bool" for c where
  erased_Nil: "erased c [] []"
| erased_keep: "erased c r s \<Longrightarrow> erased c (x # r) (x # s)"
| erased_drop: "x \<in> set c \<Longrightarrow> erased c r s \<Longrightarrow> erased c (x # r) s"

section \<open>Configuration and channel traffic\<close>

text \<open>
  The flags read by the pipeline (lines 36 to 44).  \<open>include\<close>, \<open>exclude\<close> and \<open>all\<close> carry the
  suffix \<open>_flag\<close>.  \<open>skipUntil\<close> is both a flag and the walker's state: see \<open>walker\<close>.
\<close>

record config =
  include_flag :: string
  exclude_flag :: string
  all_flag :: bool
  skipInfluxErrors :: bool
  skipWhisperErrors :: bool

text \<open>
  \<open>whisper.Point\<close>: a \<open>uint32\<close> timestamp and a \<open>float64\<close> value.  The program only copies
  values, so a value is kept as the 64 bits that hold it.
\<close>

record Point =
  Timestamp :: "32 word"
  Value :: "64 word"

datatype abstractSerie = AbstractSerie (seriePath: string) (seriePoints: "Point list")

text \<open>
  What a goroutine does that another one can see.  All five channels are made without a buffer
  (\<open>init\<close>, lines 270 to 274), so a send returns only when the receiver has taken the value:
  a send is the delivery.  \<open>Influx_Write s\<close> is one call of \<open>influxClient.Write\<close> with the batch
  built from the serie \<open>s\<close>; the batch is built once per serie (lines 114 to 132), before the
  retry loop, and is a function of \<open>s\<close> and the flags alone.  \<open>Sleep n\<close> is \<open>time.Sleep\<close> of
  \<open>n\<close> seconds.  \<open>Panic\<close> is a nil dereference, which ends the process.  The last five are the
  steps of \<open>main\<close> after the walk (lines 353 to 365); the return of \<open>main\<close> ends the process
  with status 0.

  A list of actions of a goroutine is what it does in program order when nothing stops it.  In
  a run of the program it does a first part of that list: \<open>os.Exit\<close> in the tracker, a panic
  or the return of \<open>main\<close> ends the process for every goroutine at once, and a send that no
  one takes blocks for good.  A send on \<open>exit\<close> does not end the goroutine that sends: the
  code has no \<open>return\<close> after it.
\<close>

datatype action =
    Send_foundFiles string
  | Send_whisperFiles string
  | Send_influxSeries abstractSerie
  | Send_finishedFiles string
  | Send_exit int
  | Influx_Write abstractSerie
  | Sleep nat
  | Panic
  | Close_whisperFiles
  | Wait_whisperWorkers
  | Close_influxSeries
  | Wait_influxWorkers
  | Main_return

section \<open>Discovery: \<open>process\<close> and the walk in \<open>main\<close>\<close>

text \<open>\<open>strings.HasPrefix\<close>, \<open>strings.HasSuffix\<close> and \<open>strings.Contains\<close> on byte strings.\<close>

definition HasPrefix :: "string \<Rightarrow> string \<Rightarrow> bool" where
  "HasPrefix s pre = (length pre \<le> length s \<and> take (length pre) s = pre)"

definition HasSuffix :: "string \<Rightarrow> string \<Rightarrow> bool" where
  "HasSuffix s suf = (length suf \<le> length s \<and> drop (length s - length suf) s = suf)"

fun Contains :: "string \<Rightarrow> string \<Rightarrow> bool" where
  "Contains [] substr = (substr = [])"
| "Contains (c # cs) substr = (HasPrefix (c # cs) substr \<or> Contains cs substr)"

record walker =
  skipUntil :: string
  skipCounter :: "64 word"

text \<open>
  \<open>process\<close> (lines 239 to 267), the function \<open>filepath.Walk\<close> calls for every entry.  It gets
  the entry's path and the error the walk met at that entry, if any (the \<open>os.FileInfo\<close> is not
  looked at).  The result is the walker's state afterwards, the sends made, and the error
  returned.
\<close>

definition process ::
  "config \<Rightarrow> walker \<Rightarrow> string \<Rightarrow> string option \<Rightarrow> walker \<times> action list \<times> string option"
where
  "process cfg st path err =
     (let st1 = (if path = skipUntil st then st\<lparr>skipUntil := []\<rparr> else st) in
      if err \<noteq> None then (st1, [], err)
      else if \<not> HasSuffix path ''.wsp'' then (st1, [], None)
      else if exclude_flag cfg \<noteq> [] \<and> Contains path (exclude_flag cfg) then (st1, [], None)
      else if \<not> Contains path (include_flag cfg) then (st1, [], None)
      else if skipUntil st1 \<noteq> [] then (st1\<lparr>skipCounter := skipCounter st1 + 1\<rparr>, [], None)
      else (st1, [Send_foundFiles path, Send_whisperFiles path], None))"

text \<open>
  \<open>filepath.Walk(whisperDir, process)\<close> over the entries of the tree in the walk's order, each
  with the error the walk met there.  The walk stops at the first entry for which \<open>process\<close>
  returns an error and returns that error.
\<close>

fun walk ::
  "config \<Rightarrow> walker \<Rightarrow> (string \<times> string option) list \<Rightarrow> action list \<times> string option"
where
  "walk cfg st [] = ([], None)"
| "walk cfg st ((path, err) # entries) =
     (case process cfg st path err of
        (st1, out, Some e) \<Rightarrow> (out, Some e)
      | (st1, out, None) \<Rightarrow>
          (case walk cfg st1 entries of (outs, r) \<Rightarrow> (out @ outs, r)))"

text \<open>
  Lines 345 to 349 of \<open>main\<close>: the walk, and the exit request when it returns an error.
\<close>

definition discovery :: "config \<Rightarrow> string \<Rightarrow> (string \<times> string option) list \<Rightarrow> action list" where
  "discovery cfg skipUntil_flag entries =
     (case walk cfg \<lparr>skipUntil = skipUntil_flag, skipCounter = 0\<rparr> entries of
        (outs, Some e) \<Rightarrow> outs @ [Send_exit 2]
      | (outs, None) \<Rightarrow> outs)"

text \<open>
  Lines 345 to 365 of \<open>main\<close>: after the walk, and after the exit request if there was one,
  \<open>main\<close> closes the work queue, waits for the extract workers, closes \<open>influxSeries\<close>, waits
  for the load workers and returns.
\<close>

definition main_actions ::
  "config \<Rightarrow> string \<Rightarrow> (string \<times> string option) list \<Rightarrow> action list"
where
  "main_actions cfg skipUntil_flag entries =
     discovery cfg skipUntil_flag entries
       @ [Close_whisperFiles, Wait_whisperWorkers, Close_influxSeries, Wait_influxWorkers,
          Main_return]"

section \<open>The extract pool: \<open>whisperWorker\<close>\<close>

text \<open>
  What the archive reader answers for one path: the error of \<open>os.Open\<close>, the error of
  \<open>whisper.OpenWhisper\<close>, the answer of \<open>DumpArchive(i)\<close> for every archive \<open>i\<close> of the header
  (index 0 is the finest resolution), and the answer of \<open>FetchUntil(fromTime, untilTime)\<close>.
  An answer is the points together with the error, as Go returns both.  \<open>OpenWhisper\<close> is
  called on whatever \<open>os.Open\<close> returned, and returns a nil \<open>w\<close> with its error.
\<close>

record source =
  Open_err :: "string option"
  OpenWhisper_err :: "string option"
  DumpArchive :: "(Point list \<times> string option) list"
  FetchUntil :: "Point list \<times> string option"

text \<open>
  Lines 196 to 212: \<open>for i := len(w.Header.Archives) - 1; i >= 0; i--\<close>.  The third argument is
  \<open>i + 1\<close>, the fourth is \<open>points\<close> so far; the result is the sends made and \<open>points\<close> at the
  end.  The \<open>continue\<close> of line 201 is the one of this loop.  Without skipping, a failed dump
  is followed by the send of 2 on \<open>exit\<close> (line 203) and then, as there is no \<open>continue\<close>, by
  the loop of lines 206 to 211 over what the dump returned with its error.
\<close>

fun dump_loop ::
  "bool \<Rightarrow> (Point list \<times> string option) list \<Rightarrow> nat \<Rightarrow> Point list
     \<Rightarrow> action list \<times> Point list"
where
  "dump_loop skip archives 0 points = ([], points)"
| "dump_loop skip archives (Suc i) points =
     (case archives ! i of
        (allPoints, Some e) \<Rightarrow>
          if skip then dump_loop skip archives i points
          else
            (case dump_loop skip archives i
                    (points @ filter (\<lambda>point. Timestamp point \<noteq> 0) allPoints) of
               (acts, r) \<Rightarrow> (Send_exit 2 # acts, r))
      | (allPoints, None) \<Rightarrow>
          dump_loop skip archives i
            (points @ filter (\<lambda>point. Timestamp point \<noteq> 0) allPoints))"

text \<open>
  Lines 166 to 234: the body of the worker's loop for one path.  The result is what the worker
  does for the path, and whether it goes on to the next path afterwards.  With
  \<open>skipWhisperErrors\<close> a failure ends the body by \<open>continue\<close>.  Without it the worker sends 2 on
  \<open>exit\<close> and runs on: after a failed \<open>os.Open\<close> it calls \<open>OpenWhisper\<close> on the file it got;
  after a failed \<open>OpenWhisper\<close>, which leaves \<open>w\<close> nil, the next use of \<open>w\<close> (line 190 or
  line 217) is a nil dereference; after a failed \<open>FetchUntil\<close> it closes \<open>w\<close> and sends the serie
  with the points that came with the error.
\<close>

definition whisperWorker_file :: "config \<Rightarrow> source \<Rightarrow> string \<Rightarrow> action list \<times> bool" where
  "whisperWorker_file cfg src path =
     (if Open_err src \<noteq> None \<and> skipWhisperErrors cfg then ([], True)
      else
        let opened = (if Open_err src \<noteq> None then [Send_exit 2] else []) in
        if OpenWhisper_err src \<noteq> None then
          (if skipWhisperErrors cfg then (opened, True)
           else (opened @ [Send_exit 2, Panic], False))
        else if all_flag cfg then
          (case dump_loop (skipWhisperErrors cfg) (DumpArchive src)
                  (length (DumpArchive src)) [] of
             (acts, points) \<Rightarrow>
               (opened @ acts @ [Send_influxSeries (AbstractSerie path points)], True))
        else
          (case FetchUntil src of
             (points, Some e) \<Rightarrow>
               if skipWhisperErrors cfg then (opened, True)
               else (opened @ [Send_exit 2, Send_influxSeries (AbstractSerie path points)],
                     True)
           | (points, None) \<Rightarrow>
               (opened @ [Send_influxSeries (AbstractSerie path points)], True)))"

text \<open>
  Lines 165 to 236: one worker over the paths it takes from \<open>whisperFiles\<close>, with the reader's
  answers for every path.
\<close>

fun whisperWorker :: "config \<Rightarrow> (string \<Rightarrow> source) \<Rightarrow> string list \<Rightarrow> action list" where
  "whisperWorker cfg reader [] = []"
| "whisperWorker cfg reader (path # rest) =
     (case whisperWorker_file cfg (reader path) path of
        (acts, goes_on) \<Rightarrow>
          if goes_on then acts @ whisperWorker cfg reader rest else acts)"

section \<open>The load pool: \<open>influxWorker\<close>\<close>

text \<open>
  Lines 134 to 153: the \<open>for\<close> loop around \<open>influxClient.Write\<close>.  \<open>Write_err n\<close> is the error
  of the \<open>n\<close>-th call (from 0), \<open>None\<close> when it succeeds.  The loop has no bound, so the model
  runs it for at most \<open>fuel\<close> calls: the result is what the worker did, and whether it has left
  the loop.  After the send on \<open>exit\<close> the worker sleeps for 100 seconds, in which the tracker
  ends the process; what the code has after the sleep is a send to the tracker (line 151),
  which has taken the exit code and takes nothing more.
\<close>

fun write_loop ::
  "bool \<Rightarrow> (nat \<Rightarrow> string option) \<Rightarrow> abstractSerie \<Rightarrow> nat \<Rightarrow> nat \<Rightarrow> action list \<times> bool"
where
  "write_loop skip Write_err serie n 0 = ([], False)"
| "write_loop skip Write_err serie n (Suc fuel) =
     (case Write_err n of
        None \<Rightarrow> ([Influx_Write serie, Send_finishedFiles (seriePath serie)], True)
      | Some e \<Rightarrow>
          if skip then
            (case write_loop skip Write_err serie (Suc n) fuel of
               (acts, left) \<Rightarrow> (Influx_Write serie # Sleep 5 # acts, left))
          else ([Influx_Write serie, Send_exit 2, Sleep 100], True))"

definition influxWorker_serie ::
  "config \<Rightarrow> (nat \<Rightarrow> string option) \<Rightarrow> abstractSerie \<Rightarrow> nat \<Rightarrow> action list \<times> bool"
where
  "influxWorker_serie cfg Write_err serie fuel =
     write_loop (skipInfluxErrors cfg) Write_err serie 0 fuel"

section \<open>One work unit through both pools\<close>

text \<open>The series sent on \<open>influxSeries\<close>, of a run of actions.\<close>

fun forwarded :: "action list \<Rightarrow> abstractSerie list" where
  "forwarded [] = []"
| "forwarded (Send_influxSeries serie # as) = serie # forwarded as"
| "forwarded (a # as) = forwarded as"

text \<open>
  What one path makes the two pools do, the extract worker first and then, for the serie it
  sent, a load worker: \<open>influxSeries\<close> carries nothing but what \<open>whisperWorker\<close> sends, and
  \<open>finishedFiles\<close> nothing but what \<open>influxWorker\<close> sends for a serie it received.
\<close>

definition unit_actions ::
  "config \<Rightarrow> source \<Rightarrow> (nat \<Rightarrow> string option) \<Rightarrow> string \<Rightarrow> nat \<Rightarrow> action list"
where
  "unit_actions cfg src Write_err path fuel =
     (let acts = fst (whisperWorker_file cfg src path) in
      acts @ concat (map (\<lambda>serie. fst (influxWorker_serie cfg Write_err serie fuel))
                      (forwarded acts)))"

text \<open>What the tracker receives on its two file channels, of a run of actions.\<close>

fun file_msgs :: "action list \<Rightarrow> file_msg list" where
  "file_msgs [] = []"
| "file_msgs (Send_foundFiles p # as) = Found p # file_msgs as"
| "file_msgs (Send_finishedFiles p # as) = Finished p # file_msgs as"
| "file_msgs (a # as) = file_msgs as"

text \<open>What the walker sent, out of a run of actions of the whole program.\<close>

fun walker_sends :: "action list \<Rightarrow> action list" where
  "walker_sends [] = []"
| "walker_sends (Send_foundFiles p # as) = Send_foundFiles p # walker_sends as"
| "walker_sends (Send_whisperFiles p # as) = Send_whisperFiles p # walker_sends as"
| "walker_sends (a # as) = walker_sends as"

text \<open>
  \<open>taken_before_finished queued as\<close>: every send on \<open>finishedFiles\<close> in \<open>as\<close> is for a path sent
  on \<open>whisperFiles\<close> earlier in \<open>as\<close> (or in \<open>queued\<close>): the pools report a path only after a
  worker took it from the work queue.
\<close>

fun taken_before_finished :: "string list \<Rightarrow> action list \<Rightarrow> bool" where
  "taken_before_finished queued [] = True"
| "taken_before_finished queued (Send_whisperFiles p # as) =
     taken_before_finished (p # queued) as"
| "taken_before_finished queued (Send_finishedFiles p # as) =
     (p \<in> set queued \<and> taken_before_finished queued as)"
| "taken_before_finished queued (a # as) = taken_before_finished queued as"

text \<open>
  \<open>found_first seen as\<close>: every send on \<open>whisperFiles\<close> in \<open>as\<close> is for a path sent on
  \<open>foundFiles\<close> earlier in \<open>as\<close> (or in \<open>seen\<close>).
\<close>

fun found_first :: "string list \<Rightarrow> action list \<Rightarrow> bool" where
  "found_first seen [] = True"
| "found_first seen (Send_foundFiles p # as) = found_first (p # seen) as"
| "found_first seen (Send_whisperFiles p # as) = (p \<in> set seen \<and> found_first seen as)"
| "found_first seen (a # as) = found_first seen as"

text \<open>The points of a dump that hold data: the test of line 208.\<close>

definition data_points :: "Point list \<Rightarrow> Point list" where
  "data_points allPoints = filter (\<lambda>point. Timestamp point \<noteq> 0) allPoints"

section \<open>Facts about the tracker\<close>

lemma paths_link_last: "paths (Some (link_last i f)) = paths (Some f) @ paths (Some i)"
  by (induction i f rule: link_last.induct) simp_all

lemma paths_on_found: "paths (on_found k first) = paths first @ [k]"
  by (cases first) (simp_all add: on_found_def paths_link_last)

lemma paths_on_finished: "paths (on_finished k first) = remove1 k (paths first)"
  by (induction k first rule: on_finished.induct) auto

lemma track_snoc: "track (ms @ [m]) first = on_file m (track ms first)"
  by (simp add: track_def)

lemma recorded_append: "recorded (xs @ ys) = recorded xs @ recorded ys"
  by (induction xs rule: recorded.induct) simp_all

lemma completed_append: "completed (xs @ ys) = completed xs @ completed ys"
  by (induction xs rule: completed.induct) simp_all

lemma completes_after_append:
  "completes_after seen (xs @ ys) =
     (completes_after seen xs \<and> completes_after (rev (recorded xs) @ seen) ys)"
  by (induction seen xs rule: completes_after.induct) simp_all

lemma completes_after_subset:
  "completes_after seen ms \<Longrightarrow> set (completed ms) \<subseteq> set seen \<union> set (recorded ms)"
  by (induction seen ms rule: completes_after.induct) auto

lemma consistent_prefix: "consistent (xs @ ys) \<Longrightarrow> consistent xs"
  by (simp add: consistent_def recorded_append completes_after_append)

lemma consistent_take: "consistent ms \<Longrightarrow> consistent (take n ms)"
  using consistent_prefix [of "take n ms" "drop n ms"] by simp

lemma remove1_filter_distinct:
  "distinct xs \<Longrightarrow> remove1 k (filter P xs) = filter (\<lambda>x. x \<noteq> k \<and> P x) xs"
  by (auto simp: distinct_remove1_removeAll removeAll_filter_not_eq intro: filter_cong)

lemma track_filter:
  "consistent ms \<Longrightarrow>
   paths (track ms None) = filter (\<lambda>k. k \<notin> set (completed ms)) (recorded ms)"
proof (induction ms rule: rev_induct)
  case Nil
  show ?case by (simp add: track_def)
next
  case (snoc m ms)
  from snoc.prems have cons: "consistent ms" by (rule consistent_prefix)
  note IH = snoc.IH [OF cons]
  show ?case
  proof (cases m)
    case (Found k)
    from snoc.prems Found have "k \<notin> set (recorded ms)"
      by (simp add: consistent_def recorded_append)
    moreover from cons have "set (completed ms) \<subseteq> set (recorded ms)"
      using completes_after_subset [of "[]" ms] by (simp add: consistent_def)
    ultimately have "k \<notin> set (completed ms)" by blast
    with Found IH show ?thesis
      by (simp add: track_snoc paths_on_found recorded_append completed_append)
  next
    case (Finished k)
    from cons have "distinct (recorded ms)" by (simp add: consistent_def)
    from remove1_filter_distinct [OF this] Finished IH show ?thesis
      by (simp add: track_snoc paths_on_finished recorded_append completed_append)
  qed
qed

lemma precedes_filter:
  "distinct xs \<Longrightarrow> precedes a b xs \<Longrightarrow> P a \<Longrightarrow> P b \<Longrightarrow> precedes a b (filter P xs)"
  by (induction xs) (auto split: if_splits)

lemma erased_mono: "erased c r s \<Longrightarrow> set c \<subseteq> set c' \<Longrightarrow> erased c' r s"
  by (induction rule: erased.induct) (auto intro: erased.intros)

lemma erased_snoc: "erased c r s \<Longrightarrow> erased c (r @ [k]) (s @ [k])"
  by (induction rule: erased.induct) (auto intro: erased.intros)

lemma erased_remove1: "erased c r s \<Longrightarrow> k \<in> set c \<Longrightarrow> erased c r (remove1 k s)"
  by (induction rule: erased.induct) (auto intro: erased.intros)

lemma track_erased: "erased (completed ms) (recorded ms) (paths (track ms None))"
proof (induction ms rule: rev_induct)
  case Nil
  show ?case by (simp add: track_def erased_Nil)
next
  case (snoc m ms)
  show ?case
  proof (cases m)
    case (Found k)
    with erased_snoc [OF snoc.IH, of k] show ?thesis
      by (simp add: track_snoc paths_on_found recorded_append completed_append)
  next
    case (Finished k)
    have "erased (completed ms @ [k]) (recorded ms) (paths (track ms None))"
      by (rule erased_mono [OF snoc.IH]) auto
    from erased_remove1 [OF this, of k] Finished show ?thesis
      by (simp add: track_snoc paths_on_finished recorded_append completed_append)
  qed
qed

lemma erased_head:
  "erased c r s \<Longrightarrow> s = K # rest \<Longrightarrow> set (takeWhile (\<lambda>x. x \<noteq> K) r) \<subseteq> set c"
  by (induction arbitrary: rest rule: erased.induct) auto

lemma remove1_split:
  "k \<in> set xs \<Longrightarrow> \<exists>us vs. xs = us @ k # vs \<and> k \<notin> set us \<and> remove1 k xs = us @ vs"
proof (induction xs)
  case Nil
  then show ?case by simp
next
  case (Cons x xs)
  show ?case
  proof (cases "x = k")
    case True
    then have "x # xs = [] @ k # xs \<and> k \<notin> set [] \<and> remove1 k (x # xs) = [] @ xs" by simp
    then show ?thesis by blast
  next
    case False
    with Cons.prems have "k \<in> set xs" by simp
    from Cons.IH [OF this] obtain us vs
      where "xs = us @ k # vs" "k \<notin> set us" "remove1 k xs = us @ vs" by blast
    with False
    have "x # xs = (x # us) @ k # vs \<and> k \<notin> set (x # us) \<and> remove1 k (x # xs) = (x # us) @ vs"
      by simp
    then show ?thesis by blast
  qed
qed

lemma on_finished_absent: "k \<notin> set (paths first) \<Longrightarrow> on_finished k first = first"
  by (induction k first rule: on_finished.induct) auto

section \<open>Facts about discovery\<close>

lemma HasPrefix_prefix: "HasPrefix s pre \<longleftrightarrow> prefix pre s"
proof
  assume "HasPrefix s pre"
  then have "s = pre @ drop (length pre) s"
    by (metis HasPrefix_def append_take_drop_id)
  then show "prefix pre s" by (rule prefixI)
next
  assume "prefix pre s"
  then obtain zs where "s = pre @ zs" by (auto simp: prefix_def)
  then show "HasPrefix s pre" by (simp add: HasPrefix_def)
qed

lemma HasSuffix_suffix: "HasSuffix s suf \<longleftrightarrow> suffix suf s"
proof
  assume "HasSuffix s suf"
  then have "s = take (length s - length suf) s @ suf"
    by (metis HasSuffix_def append_take_drop_id)
  then show "suffix suf s" by (rule suffixI)
next
  assume "suffix suf s"
  then obtain zs where "s = zs @ suf" by (auto simp: suffix_def)
  then show "HasSuffix s suf" by (simp add: HasSuffix_def)
qed

lemma Contains_sublist: "Contains s substr \<longleftrightarrow> sublist substr s"
  by (induction s) (simp_all add: sublist_Cons_right HasPrefix_prefix)

lemma process_sends:
  "fst (snd (process cfg st path err)) = []
   \<or> fst (snd (process cfg st path err)) = [Send_foundFiles path, Send_whisperFiles path]"
  by (simp add: process_def Let_def)

lemma walk_pairs:
  "\<exists>ks. fst (walk cfg st entries) = concat (map (\<lambda>k. [Send_foundFiles k, Send_whisperFiles k]) ks)"
proof (induction entries arbitrary: st)
  case Nil
  have "fst (walk cfg st []) = concat (map (\<lambda>k. [Send_foundFiles k, Send_whisperFiles k]) [])"
    by simp
  then show ?case by blast
next
  case (Cons entry entries)
  obtain path err where entry: "entry = (path, err)" by (cases entry)
  obtain st1 out r where p: "process cfg st path err = (st1, out, r)"
    by (cases "process cfg st path err")
  from process_sends [of cfg st path err] p
  have out: "out = [] \<or> out = [Send_foundFiles path, Send_whisperFiles path]" by simp
  then obtain k0 where k0: "out = concat (map (\<lambda>k. [Send_foundFiles k, Send_whisperFiles k]) k0)"
  proof
    assume "out = []"
    then have "out = concat (map (\<lambda>k. [Send_foundFiles k, Send_whisperFiles k]) [])" by simp
    then show ?thesis by (rule that)
  next
    assume "out = [Send_foundFiles path, Send_whisperFiles path]"
    then have "out = concat (map (\<lambda>k. [Send_foundFiles k, Send_whisperFiles k]) [path])" by simp
    then show ?thesis by (rule that)
  qed
  show ?case
  proof (cases r)
    case (Some e)
    with entry p k0 show ?thesis by auto
  next
    case None
    obtain outs r1 where w: "walk cfg st1 entries = (outs, r1)"
      by (cases "walk cfg st1 entries")
    from Cons.IH [of st1] w obtain ks
      where "outs = concat (map (\<lambda>k. [Send_foundFiles k, Send_whisperFiles k]) ks)" by auto
    with entry p k0 None w
    have "fst (walk cfg st (entry # entries)) =
            concat (map (\<lambda>k. [Send_foundFiles k, Send_whisperFiles k]) (k0 @ ks))"
      by simp
    then show ?thesis by blast
  qed
qed

lemma discovery_pairs:
  "\<exists>ks fin. discovery cfg su entries =
      concat (map (\<lambda>k. [Send_foundFiles k, Send_whisperFiles k]) ks) @ fin
    \<and> (fin = [] \<or> fin = [Send_exit 2])"
proof -
  let ?w = "walk cfg \<lparr>skipUntil = su, skipCounter = 0\<rparr> entries"
  obtain outs r where w: "?w = (outs, r)" by (cases ?w)
  from walk_pairs [of cfg "\<lparr>skipUntil = su, skipCounter = 0\<rparr>" entries] w obtain ks
    where ks: "outs = concat (map (\<lambda>k. [Send_foundFiles k, Send_whisperFiles k]) ks)" by auto
  show ?thesis
  proof (cases r)
    case None
    with ks w have "discovery cfg su entries =
      concat (map (\<lambda>k. [Send_foundFiles k, Send_whisperFiles k]) ks) @ []"
      by (simp add: discovery_def)
    then show ?thesis by blast
  next
    case (Some e)
    with ks w have "discovery cfg su entries =
      concat (map (\<lambda>k. [Send_foundFiles k, Send_whisperFiles k]) ks) @ [Send_exit 2]"
      by (simp add: discovery_def)
    then show ?thesis by blast
  qed
qed

lemma pairs_split:
  "concat (map (\<lambda>k. [Send_foundFiles k, Send_whisperFiles k]) ks) @ fin
     = xs @ Send_whisperFiles k # ys \<Longrightarrow>
   fin = [] \<or> fin = [Send_exit c] \<Longrightarrow> \<exists>zs. xs = zs @ [Send_foundFiles k]"
proof (induction ks arbitrary: xs)
  case Nil
  then show ?case by (auto simp: Cons_eq_append_conv append_eq_Cons_conv)
next
  case (Cons k0 ks)
  show ?case
  proof (cases xs)
    case Nil
    with Cons.prems show ?thesis by simp
  next
    case (Cons a xs1)
    note xs = this
    show ?thesis
    proof (cases xs1)
      case Nil
      with xs Cons.prems show ?thesis by auto
    next
      case (Cons b xs2)
      with xs Cons.prems(1)
      have "concat (map (\<lambda>k. [Send_foundFiles k, Send_whisperFiles k]) ks) @ fin
              = xs2 @ Send_whisperFiles k # ys" by simp
      from Cons.IH [OF this Cons.prems(2)] obtain zs where "xs2 = zs @ [Send_foundFiles k]"
        by blast
      with xs Cons have "xs = (a # b # zs) @ [Send_foundFiles k]" by simp
      then show ?thesis by blast
    qed
  qed
qed

lemma found_first_pairs:
  "found_first seen (concat (map (\<lambda>k. [Send_foundFiles k, Send_whisperFiles k]) ks))"
  by (induction ks arbitrary: seen) simp_all

lemma walker_sends_pairs:
  "fin = [] \<or> fin = [Send_exit c] \<Longrightarrow>
   walker_sends (concat (map (\<lambda>k. [Send_foundFiles k, Send_whisperFiles k]) ks) @ fin)
     = concat (map (\<lambda>k. [Send_foundFiles k, Send_whisperFiles k]) ks)"
  by (induction ks) auto

lemma found_first_prefix: "found_first seen (xs @ ys) \<Longrightarrow> found_first seen xs"
  by (induction seen xs rule: found_first.induct) simp_all

lemma schedule_consistent:
  "found_first seen (walker_sends g) \<Longrightarrow> taken_before_finished queued g \<Longrightarrow>
   set queued \<subseteq> set seen \<Longrightarrow> completes_after seen (file_msgs g)"
proof (induction g arbitrary: seen queued)
  case Nil
  then show ?case by simp
next
  case (Cons a g)
  show ?case
  proof (cases a)
    case (Send_foundFiles p)
    with Cons.prems have "found_first (p # seen) (walker_sends g)"
      "taken_before_finished queued g" "set queued \<subseteq> set (p # seen)" by auto
    from Cons.IH [OF this] Send_foundFiles show ?thesis by simp
  next
    case (Send_whisperFiles p)
    with Cons.prems have "found_first seen (walker_sends g)"
      "taken_before_finished (p # queued) g" "set (p # queued) \<subseteq> set seen" by auto
    from Cons.IH [OF this] Send_whisperFiles show ?thesis by simp
  next
    case (Send_finishedFiles p)
    with Cons.prems have "found_first seen (walker_sends g)"
      "taken_before_finished queued g" "set queued \<subseteq> set seen" "p \<in> set seen" by auto
    from Cons.IH [OF this(1-3)] this(4) Send_finishedFiles show ?thesis by simp
  next
    case (Send_influxSeries s)
    with Cons.prems Cons.IH [of seen queued] show ?thesis by simp
  next
    case (Send_exit c)
    with Cons.prems Cons.IH [of seen queued] show ?thesis by simp
  next
    case (Influx_Write s)
    with Cons.prems Cons.IH [of seen queued] show ?thesis by simp
  next
    case (Sleep n)
    with Cons.prems Cons.IH [of seen queued] show ?thesis by simp
  next
    case Panic
    with Cons.prems Cons.IH [of seen queued] show ?thesis by simp
  next
    case Close_whisperFiles
    with Cons.prems Cons.IH [of seen queued] show ?thesis by simp
  next
    case Wait_whisperWorkers
    with Cons.prems Cons.IH [of seen queued] show ?thesis by simp
  next
    case Close_influxSeries
    with Cons.prems Cons.IH [of seen queued] show ?thesis by simp
  next
    case Wait_influxWorkers
    with Cons.prems Cons.IH [of seen queued] show ?thesis by simp
  next
    case Main_return
    with Cons.prems Cons.IH [of seen queued] show ?thesis by simp
  qed
qed

text \<open>
  Every run of the program is consistent, when the walk meets no path twice: the walker has
  sent some first part of what \<open>discovery\<close> sends, and the pools report a path only after a
  worker took it from the work queue.
\<close>

lemma file_msgs_append: "file_msgs (xs @ ys) = file_msgs xs @ file_msgs ys"
  by (induction xs rule: file_msgs.induct) simp_all

lemma file_msgs_walker_sends: "recorded (file_msgs (walker_sends g)) = recorded (file_msgs g)"
  by (induction g rule: walker_sends.induct) simp_all

lemma walk_recorded_subseq:
  "subseq (recorded (file_msgs (fst (walk cfg st entries)))) (map fst entries)"
proof (induction entries arbitrary: st)
  case Nil
  show ?case by simp
next
  case (Cons entry entries)
  obtain path err where entry: "entry = (path, err)" by (cases entry)
  obtain st1 out r where p: "process cfg st path err = (st1, out, r)"
    by (cases "process cfg st path err")
  from process_sends [of cfg st path err] p
  have out: "recorded (file_msgs out) = [] \<or> recorded (file_msgs out) = [path]" by auto
  obtain outs r1 where w: "walk cfg st1 entries = (outs, r1)"
    by (cases "walk cfg st1 entries")
  from Cons.IH [of st1] w have IH: "subseq (recorded (file_msgs outs)) (map fst entries)"
    by simp
  show ?case
  proof (cases r)
    case (Some e)
    with entry p out show ?thesis by auto
  next
    case None
    with entry p w have "recorded (file_msgs (fst (walk cfg st (entry # entries))))
        = recorded (file_msgs out) @ recorded (file_msgs outs)"
      by (simp add: file_msgs_append recorded_append)
    with out IH entry show ?thesis by auto
  qed
qed

lemma discovery_recorded_distinct:
  "distinct (map fst entries) \<Longrightarrow> distinct (recorded (file_msgs (discovery cfg su entries)))"
proof -
  assume d: "distinct (map fst entries)"
  let ?w = "walk cfg \<lparr>skipUntil = su, skipCounter = 0\<rparr> entries"
  obtain outs r where w: "?w = (outs, r)" by (cases ?w)
  from walk_recorded_subseq [of cfg "\<lparr>skipUntil = su, skipCounter = 0\<rparr>" entries] w
  have "subseq (recorded (file_msgs outs)) (map fst entries)" by simp
  then have "recorded (file_msgs outs) \<in> set (subseqs (map fst entries))" by simp
  from subseqs_distinctD [OF this d] have "distinct (recorded (file_msgs outs))" .
  with w show ?thesis
    by (cases r) (simp_all add: discovery_def file_msgs_append recorded_append)
qed

lemma program_run_consistent:
  assumes "distinct (map fst entries)"
    and "prefix (walker_sends g) (walker_sends (discovery cfg su entries))"
    and "taken_before_finished [] g"
  shows "consistent (file_msgs g)"
proof -
  let ?d = "discovery cfg su entries"
  from assms(2) obtain rest where r: "walker_sends ?d = walker_sends g @ rest"
    by (auto simp: prefix_def)
  have "recorded (file_msgs ?d) = recorded (file_msgs (walker_sends ?d))"
    by (simp add: file_msgs_walker_sends)
  also have "\<dots> = recorded (file_msgs g) @ recorded (file_msgs rest)"
    by (simp add: r file_msgs_append recorded_append file_msgs_walker_sends)
  finally have "distinct (recorded (file_msgs g) @ recorded (file_msgs rest))"
    using discovery_recorded_distinct [OF assms(1), of cfg su] by simp
  then have 1: "distinct (recorded (file_msgs g))" by simp
  from discovery_pairs [of cfg su entries] obtain ks fin
    where d: "?d = concat (map (\<lambda>k. [Send_foundFiles k, Send_whisperFiles k]) ks) @ fin"
      and fin: "fin = [] \<or> fin = [Send_exit 2]" by blast
  from d fin have "walker_sends ?d =
      concat (map (\<lambda>k. [Send_foundFiles k, Send_whisperFiles k]) ks)"
    using walker_sends_pairs [of fin 2 ks] by simp
  with r found_first_pairs [of "[]" ks] have "found_first [] (walker_sends g @ rest)" by simp
  then have "found_first [] (walker_sends g)" by (rule found_first_prefix)
  from schedule_consistent [OF this assms(3)] have 2: "completes_after [] (file_msgs g)"
    by simp
  from 1 2 show ?thesis by (simp add: consistent_def)
qed

section \<open>Facts about the two pools\<close>

lemma concat_order:
  assumes "i < j" "j < length as" "p \<in> set (f (as ! i))" "q \<in> set (f (as ! j))"
  shows "\<exists>xs ys zs. concat (map f (rev as)) = xs @ q # ys @ p # zs"
proof -
  from assms(1,2) have i: "i < length as" by simp
  have 1: "as = take i as @ as ! i # drop (Suc i) as"
    using i by (rule id_take_nth_drop)
  let ?d = "drop (Suc i) as"
  from assms(1,2) have j: "j - Suc i < length ?d" by simp
  have 2: "?d = take (j - Suc i) ?d @ ?d ! (j - Suc i) # drop (Suc (j - Suc i)) ?d"
    using j by (rule id_take_nth_drop)
  from assms(1,2) have 3: "?d ! (j - Suc i) = as ! j" by simp
  define P B C where "P = take i as" and "B = take (j - Suc i) ?d"
    and "C = drop (Suc (j - Suc i)) ?d"
  from 1 2 3 have as: "as = P @ as ! i # B @ as ! j # C"
    unfolding P_def B_def C_def by metis
  from assms(3) obtain u v where p: "f (as ! i) = u @ p # v" by (auto dest: split_list)
  from assms(4) obtain u' v' where q: "f (as ! j) = u' @ q # v'" by (auto dest: split_list)
  have "concat (map f (rev (P @ as ! i # B @ as ! j # C))) =
          (concat (map f (rev C)) @ u') @ q # (v' @ concat (map f (rev B)) @ u) @ p
             # (v @ concat (map f (rev P)))"
    by (simp add: p q)
  with as show ?thesis by metis
qed

lemma write_loop_retry:
  "\<forall>i<k. Write_err (n + i) \<noteq> None \<Longrightarrow>
   write_loop True Write_err serie n k = (concat (replicate k [Influx_Write serie, Sleep 5]), False)"
proof (induction k arbitrary: n)
  case 0
  show ?case by simp
next
  case (Suc k)
  from Suc.prems have "Write_err n \<noteq> None" by (metis add.right_neutral zero_less_Suc)
  moreover from Suc.prems have "\<forall>i<k. Write_err (Suc n + i) \<noteq> None" by auto
  from Suc.IH [OF this] have
    "write_loop True Write_err serie (Suc n) k = (concat (replicate k [Influx_Write serie, Sleep 5]), False)" .
  ultimately show ?case by auto
qed

lemma write_loop_success:
  "\<forall>i<k. Write_err (n + i) \<noteq> None \<Longrightarrow> Write_err (n + k) = None \<Longrightarrow> k < fuel \<Longrightarrow>
   write_loop True Write_err serie n fuel =
     (concat (replicate k [Influx_Write serie, Sleep 5])
        @ [Influx_Write serie, Send_finishedFiles (seriePath serie)], True)"
proof (induction k arbitrary: n fuel)
  case 0
  then obtain f where "fuel = Suc f" by (cases fuel) auto
  with 0 show ?case by simp
next
  case (Suc k)
  then obtain f where f: "fuel = Suc f" by (cases fuel) auto
  from Suc.prems have "Write_err n \<noteq> None" by (metis add.right_neutral zero_less_Suc)
  moreover from Suc.prems f have "\<forall>i<k. Write_err (Suc n + i) \<noteq> None"
    "Write_err (Suc n + k) = None" "k < f" by auto
  from Suc.IH [OF this] have
    "write_loop True Write_err serie (Suc n) f =
       (concat (replicate k [Influx_Write serie, Sleep 5])
          @ [Influx_Write serie, Send_finishedFiles (seriePath serie)], True)" .
  ultimately show ?case using f by auto
qed

lemma write_loop_finished:
  "Send_finishedFiles p \<in> set (fst (write_loop skip Write_err serie n fuel)) \<Longrightarrow>
   p = seriePath serie \<and> (\<exists>k<fuel. Write_err (n + k) = None \<and> (\<forall>i<k. Write_err (n + i) \<noteq> None))"
proof (induction fuel arbitrary: n)
  case 0
  then show ?case by simp
next
  case (Suc fuel)
  show ?case
  proof (cases "Write_err n")
    case None
    with Suc.prems have "p = seriePath serie" by simp
    moreover from None have "Write_err (n + 0) = None \<and> (\<forall>i<0. Write_err (n + i) \<noteq> None)" by simp
    ultimately show ?thesis by blast
  next
    case (Some e)
    with Suc.prems have skip: skip by (simp split: if_splits)
    with Suc.prems Some
    have "Send_finishedFiles p \<in> set (fst (write_loop skip Write_err serie (Suc n) fuel))"
      by (simp split: prod.splits)
    from Suc.IH [OF this] obtain k where k: "p = seriePath serie" "k < fuel"
      "Write_err (Suc n + k) = None" "\<forall>i<k. Write_err (Suc n + i) \<noteq> None" by blast
    have "\<forall>i<Suc k. Write_err (n + i) \<noteq> None"
    proof (intro allI impI)
      fix i assume "i < Suc k"
      show "Write_err (n + i) \<noteq> None"
      proof (cases i)
        case 0
        with Some show ?thesis by simp
      next
        case (Suc i')
        with \<open>i < Suc k\<close> k(4) show ?thesis by simp
      qed
    qed
    with k have "Suc k < Suc fuel \<and> Write_err (n + Suc k) = None
       \<and> (\<forall>i<Suc k. Write_err (n + i) \<noteq> None)" by simp
    with k(1) show ?thesis by blast
  qed
qed

lemma write_loop_exit:
  "Send_exit c \<in> set (fst (write_loop skip Write_err serie n fuel)) \<Longrightarrow> c = 2 \<and> \<not> skip"
proof (induction fuel arbitrary: n)
  case 0
  then show ?case by simp
next
  case (Suc fuel)
  obtain acts left where w: "write_loop skip Write_err serie (Suc n) fuel = (acts, left)"
    by (cases "write_loop skip Write_err serie (Suc n) fuel")
  show ?case
  proof (cases "Write_err n = None \<or> \<not> skip")
    case True
    with Suc.prems show ?thesis by (auto split: option.splits)
  next
    case False
    with Suc.prems w have "Send_exit c \<in> set acts" by (auto split: option.splits)
    with Suc.IH [of "Suc n"] w show ?thesis by simp
  qed
qed

lemma dump_loop_skip: "fst (dump_loop True archives n points) = []"
  by (induction n arbitrary: points) (auto split: prod.splits option.splits)

lemma dump_loop_ok:
  "n \<le> length archives \<Longrightarrow> \<forall>i<n. snd (archives ! i) = None \<Longrightarrow>
   dump_loop skip archives n points =
     ([], points @ concat (map (\<lambda>a. data_points (fst a)) (rev (take n archives))))"
proof (induction n arbitrary: points)
  case 0
  show ?case by simp
next
  case (Suc n)
  obtain allPoints err where a: "archives ! n = (allPoints, err)" by (cases "archives ! n")
  from Suc.prems a have err: "err = None" by auto
  from Suc.prems have n: "n < length archives" by simp
  from Suc.prems have "n \<le> length archives" "\<forall>i<n. snd (archives ! i) = None" by auto
  note IH = Suc.IH [OF this]
  from a err IH n show ?case
    by (simp add: take_Suc_conv_app_nth data_points_def)
qed

lemma dump_loop_acts:
  "a \<in> set (fst (dump_loop skip archives n points)) \<Longrightarrow> a = Send_exit 2 \<and> \<not> skip"
proof (induction n arbitrary: points)
  case 0
  then show ?case by simp
next
  case (Suc n)
  obtain allPoints err where ar: "archives ! n = (allPoints, err)" by (cases "archives ! n")
  let ?points = "points @ filter (\<lambda>point. Timestamp point \<noteq> 0) allPoints"
  obtain acts r where d: "dump_loop skip archives n ?points = (acts, r)"
    by (cases "dump_loop skip archives n ?points")
  show ?case
  proof (cases "err \<noteq> None \<and> skip")
    case True
    with Suc.prems ar have "a \<in> set (fst (dump_loop skip archives n points))" by auto
    then show ?thesis by (rule Suc.IH)
  next
    case False
    with Suc.prems ar d have "a = Send_exit 2 \<and> \<not> skip \<or> a \<in> set acts"
      by (cases err) auto
    with Suc.IH [of ?points] d show ?thesis by auto
  qed
qed

lemma dump_loop_fatal:
  "n \<le> length archives \<Longrightarrow> \<exists>i<n. snd (archives ! i) \<noteq> None \<Longrightarrow>
   \<exists>rest. fst (dump_loop False archives n points) = Send_exit 2 # rest"
proof (induction n arbitrary: points)
  case 0
  then show ?case by simp
next
  case (Suc n)
  obtain allPoints err where ar: "archives ! n = (allPoints, err)" by (cases "archives ! n")
  let ?points = "points @ filter (\<lambda>point. Timestamp point \<noteq> 0) allPoints"
  obtain acts r where d: "dump_loop False archives n ?points = (acts, r)"
    by (cases "dump_loop False archives n ?points")
  show ?case
  proof (cases err)
    case (Some e)
    with ar d show ?thesis by simp
  next
    case None
    with Suc.prems ar have "\<exists>i<n. snd (archives ! i) \<noteq> None"
      by (metis less_Suc_eq snd_conv)
    moreover from Suc.prems have "n \<le> length archives" by simp
    ultimately have "\<exists>rest. fst (dump_loop False archives n ?points) = Send_exit 2 # rest"
      by (rule Suc.IH [rotated])
    with ar None show ?thesis by simp
  qed
qed

lemma dump_loop_data:
  "\<forall>p\<in>set points. Timestamp p \<noteq> 0 \<Longrightarrow>
   \<forall>p\<in>set (snd (dump_loop skip archives n points)). Timestamp p \<noteq> 0"
proof (induction n arbitrary: points)
  case 0
  then show ?case by simp
next
  case (Suc n)
  obtain allPoints err where ar: "archives ! n = (allPoints, err)" by (cases "archives ! n")
  let ?points = "points @ filter (\<lambda>point. Timestamp point \<noteq> 0) allPoints"
  obtain acts r where d: "dump_loop skip archives n ?points = (acts, r)"
    by (cases "dump_loop skip archives n ?points")
  from Suc.prems have "\<forall>p\<in>set ?points. Timestamp p \<noteq> 0" by auto
  from Suc.IH [OF this] d have 1: "\<forall>p\<in>set r. Timestamp p \<noteq> 0" by simp
  from Suc.IH [OF Suc.prems]
  have 2: "\<forall>p\<in>set (snd (dump_loop skip archives n points)). Timestamp p \<noteq> 0" .
  from ar d 1 2 show ?case by (cases err) auto
qed

lemma whisperWorker_file_full:
  assumes "all_flag cfg"
    and "Send_influxSeries serie \<in> set (fst (whisperWorker_file cfg src path))"
  shows "seriePath serie = path \<and> (\<forall>p\<in>set (seriePoints serie). Timestamp p \<noteq> 0)"
proof -
  let ?d = "dump_loop (skipWhisperErrors cfg) (DumpArchive src) (length (DumpArchive src)) []"
  obtain acts points where d: "?d = (acts, points)" by (cases ?d)
  have na: "Send_influxSeries serie \<notin> set acts"
    using dump_loop_acts [of "Send_influxSeries serie" "skipWhisperErrors cfg"
        "DumpArchive src" "length (DumpArchive src)" "[]"] d by auto
  from assms d na have "serie = AbstractSerie path points"
    by (auto simp: whisperWorker_file_def Let_def split: if_splits)
  moreover have "\<forall>p\<in>set points. Timestamp p \<noteq> 0"
    using dump_loop_data [of "[]" "skipWhisperErrors cfg" "DumpArchive src"
        "length (DumpArchive src)"] d by simp
  ultimately show ?thesis by simp
qed

lemma whisperWorker_file_range:
  assumes "\<not> all_flag cfg"
    and "Send_influxSeries serie \<in> set (fst (whisperWorker_file cfg src path))"
  shows "serie = AbstractSerie path (fst (FetchUntil src))"
  using assms
  by (cases "FetchUntil src")
     (auto simp: whisperWorker_file_def Let_def split: if_splits option.splits)

lemma whisperWorker_file_path:
  "Send_influxSeries serie \<in> set (fst (whisperWorker_file cfg src path)) \<Longrightarrow>
   seriePath serie = path"
  using whisperWorker_file_full [of cfg serie src path]
    whisperWorker_file_range [of cfg serie src path]
  by (cases "all_flag cfg") auto


lemma whisperWorker_file_code:
  "Send_exit c \<in> set (fst (whisperWorker_file cfg src path)) \<Longrightarrow>
   c = 2 \<and> \<not> skipWhisperErrors cfg"
proof -
  assume a: "Send_exit c \<in> set (fst (whisperWorker_file cfg src path))"
  let ?d = "dump_loop (skipWhisperErrors cfg) (DumpArchive src) (length (DumpArchive src)) []"
  obtain acts points where d: "?d = (acts, points)" by (cases ?d)
  have "Send_exit c \<in> set acts \<Longrightarrow> c = 2 \<and> \<not> skipWhisperErrors cfg"
    using dump_loop_acts [of "Send_exit c" "skipWhisperErrors cfg"
        "DumpArchive src" "length (DumpArchive src)" "[]"] d by auto
  with a d show ?thesis
    by (cases "FetchUntil src")
       (auto simp: whisperWorker_file_def Let_def split: if_splits option.splits)
qed

lemma whisperWorker_code:
  "Send_exit c \<in> set (whisperWorker cfg reader ps) \<Longrightarrow> c = 2 \<and> \<not> skipWhisperErrors cfg"
proof (induction ps)
  case Nil
  then show ?case by simp
next
  case (Cons path ps)
  obtain acts goes_on where w: "whisperWorker_file cfg (reader path) path = (acts, goes_on)"
    by (cases "whisperWorker_file cfg (reader path) path")
  from Cons.prems w
  have "Send_exit c \<in> set acts \<or> Send_exit c \<in> set (whisperWorker cfg reader ps)"
    by (auto split: if_splits)
  then show ?case
  proof
    assume "Send_exit c \<in> set acts"
    with w whisperWorker_file_code [of c cfg "reader path" path] show ?thesis by simp
  next
    assume "Send_exit c \<in> set (whisperWorker cfg reader ps)"
    then show ?thesis by (rule Cons.IH)
  qed
qed

lemma whisperWorker_file_skip:
  "skipWhisperErrors cfg \<Longrightarrow>
   Open_err src \<noteq> None \<or> OpenWhisper_err src \<noteq> None
     \<or> (\<not> all_flag cfg \<and> snd (FetchUntil src) \<noteq> None) \<Longrightarrow>
   whisperWorker_file cfg src path = ([], True)"
  by (cases "FetchUntil src") (auto simp: whisperWorker_file_def Let_def)

lemma whisperWorker_file_fatal:
  assumes skip: "\<not> skipWhisperErrors cfg"
    and fail: "Open_err src \<noteq> None \<or> OpenWhisper_err src \<noteq> None
     \<or> (all_flag cfg \<and> (\<exists>a\<in>set (DumpArchive src). snd a \<noteq> None))
     \<or> (\<not> all_flag cfg \<and> snd (FetchUntil src) \<noteq> None)"
  shows "\<exists>rest. fst (whisperWorker_file cfg src path) = Send_exit 2 # rest"
proof (cases "Open_err src \<noteq> None")
  case True
  let ?d = "dump_loop (skipWhisperErrors cfg) (DumpArchive src) (length (DumpArchive src)) []"
  obtain acts points where d: "?d = (acts, points)" by (cases ?d)
  from True skip d show ?thesis
    by (cases "FetchUntil src")
       (auto simp: whisperWorker_file_def Let_def split: option.splits)
next
  case o: False
  show ?thesis
  proof (cases "OpenWhisper_err src \<noteq> None")
    case True
    with o skip show ?thesis by (auto simp: whisperWorker_file_def Let_def)
  next
    case w: False
    show ?thesis
    proof (cases "all_flag cfg")
      case True
      with fail o w have "\<exists>i<length (DumpArchive src). snd (DumpArchive src ! i) \<noteq> None"
        by (metis in_set_conv_nth)
      from dump_loop_fatal [OF order_refl this, of "[]"] obtain rest
        where "fst (dump_loop False (DumpArchive src) (length (DumpArchive src)) [])
                 = Send_exit 2 # rest" by blast
      with skip True o w show ?thesis
        by (auto simp: whisperWorker_file_def Let_def split: prod.splits)
    next
      case False
      with fail o w skip show ?thesis
        by (cases "FetchUntil src") (auto simp: whisperWorker_file_def Let_def)
    qed
  qed
qed

lemma whisperWorker_fatal:
  assumes "\<not> skipWhisperErrors cfg"
    and "Open_err (reader path) \<noteq> None \<or> OpenWhisper_err (reader path) \<noteq> None
     \<or> (all_flag cfg \<and> (\<exists>a\<in>set (DumpArchive (reader path)). snd a \<noteq> None))
     \<or> (\<not> all_flag cfg \<and> snd (FetchUntil (reader path)) \<noteq> None)"
  shows "\<exists>rest. whisperWorker cfg reader (path # ps) = Send_exit 2 # rest"
proof -
  from whisperWorker_file_fatal [OF assms, of path] obtain rest
    where "fst (whisperWorker_file cfg (reader path) path) = Send_exit 2 # rest" by blast
  then show ?thesis
    by (cases "whisperWorker_file cfg (reader path) path") auto
qed

lemma forwarded_set: "serie \<in> set (forwarded acts) \<longleftrightarrow> Send_influxSeries serie \<in> set acts"
  by (induction acts rule: forwarded.induct) auto

lemma whisperWorker_file_no_finished:
  "Send_finishedFiles p \<notin> set (fst (whisperWorker_file cfg src path))"
proof -
  let ?d = "dump_loop (skipWhisperErrors cfg) (DumpArchive src) (length (DumpArchive src)) []"
  obtain acts points where d: "?d = (acts, points)" by (cases ?d)
  have "Send_finishedFiles p \<notin> set acts"
    using dump_loop_acts [of "Send_finishedFiles p" "skipWhisperErrors cfg"
        "DumpArchive src" "length (DumpArchive src)" "[]"] d by auto
  with d show ?thesis
    by (cases "FetchUntil src")
       (auto simp: whisperWorker_file_def Let_def split: if_splits option.splits)
qed

lemma unit_actions_finished:
  assumes "Send_finishedFiles p \<in> set (unit_actions cfg src Write_err path fuel)"
  shows "p = path"
proof -
  from assms whisperWorker_file_no_finished [of p cfg src path]
  obtain serie where s: "serie \<in> set (forwarded (fst (whisperWorker_file cfg src path)))"
    and f: "Send_finishedFiles p \<in> set (fst (influxWorker_serie cfg Write_err serie fuel))"
    by (auto simp: unit_actions_def Let_def)
  from f have "p = seriePath serie"
    using write_loop_finished [of p "skipInfluxErrors cfg" Write_err serie 0 fuel]
    by (simp add: influxWorker_serie_def)
  with s whisperWorker_file_path [of serie cfg src path] show ?thesis
    by (simp add: forwarded_set)
qed

section \<open>Facts about exits and abandoned units\<close>

lemma track_append: "track (xs @ ys) first = track ys (track xs first)"
  by (simp add: track_def)

lemma track_keeps:
  "path \<in> set (paths first) \<Longrightarrow> Finished path \<notin> set ms \<Longrightarrow> path \<in> set (paths (track ms first))"
proof (induction ms arbitrary: first)
  case Nil
  then show ?case by (simp add: track_def)
next
  case (Cons m ms)
  have "path \<in> set (paths (on_file m first))"
  proof (cases m)
    case (Found k)
    with Cons.prems show ?thesis by (simp add: paths_on_found)
  next
    case (Finished k)
    with Cons.prems have "k \<noteq> path" by auto
    with Cons.prems Finished show ?thesis by (simp add: paths_on_finished)
  qed
  moreover from Cons.prems have "Finished path \<notin> set ms" by simp
  ultimately have "path \<in> set (paths (track ms (on_file m first)))" by (rule Cons.IH)
  then show ?case by (simp add: track_def)
qed

lemma keepOrder_files: "keepOrder first (map File ms @ rest) = keepOrder (track ms first) rest"
  by (induction ms arbitrary: first) (simp_all add: track_def)

lemma on_exit_paths:
  "on_exit code first = Exited (case paths first of [] \<Rightarrow> [] | K # _ \<Rightarrow> [resume_line K]) code"
proof (cases first)
  case None
  then show ?thesis by (simp add: on_exit_def)
next
  case (Some f)
  then show ?thesis by (cases f) (simp add: on_exit_def)
qed

lemma process_error: "snd (snd (process cfg st path err)) = err"
  by (simp add: process_def Let_def)

lemma walk_error:
  "(path, Some e) \<in> set entries \<Longrightarrow> snd (walk cfg st entries) \<noteq> None"
proof (induction entries arbitrary: st)
  case Nil
  then show ?case by simp
next
  case (Cons entry entries)
  obtain p err where entry: "entry = (p, err)" by (cases entry)
  obtain st1 out r where pr: "process cfg st p err = (st1, out, r)"
    by (cases "process cfg st p err")
  with process_error [of cfg st p err] have r: "r = err" by simp
  show ?case
  proof (cases err)
    case (Some e')
    with entry pr r show ?thesis by simp
  next
    case None
    with Cons.prems entry have "(path, Some e) \<in> set entries" by auto
    from Cons.IH [OF this, of st1] entry pr r None show ?thesis
      by (cases "walk cfg st1 entries") auto
  qed
qed

lemma discovery_exit:
  "snd (walk cfg \<lparr>skipUntil = su, skipCounter = 0\<rparr> entries) \<noteq> None \<Longrightarrow>
   \<exists>outs. discovery cfg su entries = outs @ [Send_exit 2]"
  by (cases "walk cfg \<lparr>skipUntil = su, skipCounter = 0\<rparr> entries") (auto simp: discovery_def)

lemma discovery_code: "Send_exit c \<in> set (discovery cfg su entries) \<Longrightarrow> c = 2"
proof -
  assume a: "Send_exit c \<in> set (discovery cfg su entries)"
  from discovery_pairs [of cfg su entries] obtain ks fin
    where d: "discovery cfg su entries =
                concat (map (\<lambda>k. [Send_foundFiles k, Send_whisperFiles k]) ks) @ fin"
      and fin: "fin = [] \<or> fin = [Send_exit 2]" by blast
  from a d fin show ?thesis by auto
qed

section \<open>The claims about the tracker\<close>

text \<open>
  C1.  Take any run of record (\<open>Found\<close>) and complete (\<open>Finished\<close>) messages in which each key
  is recorded at most once and is completed only after it has been recorded.  At every instant,
  that is after any number \<open>n\<close> of its messages, the In-Progress Sequence is the list of the
  recorded keys, in record order, without the completed ones.  So its members are the recorded
  keys minus the completed keys, no key is in it twice, and when \<open>a\<close> was recorded before \<open>b\<close>
  and both are still members, \<open>a\<close> stands before \<open>b\<close>, whatever the order of the completions.
  The runs of the program are such runs (\<open>program_run_consistent\<close>).
\<close>

theorem sequence_invariant:
  assumes "consistent ms"
  shows "paths (track (take n ms) None) =
           filter (\<lambda>k. k \<notin> set (completed (take n ms))) (recorded (take n ms))
       \<and> set (paths (track (take n ms) None)) =
           set (recorded (take n ms)) - set (completed (take n ms))
       \<and> distinct (paths (track (take n ms) None))
       \<and> (\<forall>a b. precedes a b (recorded (take n ms))
              \<and> a \<in> set (paths (track (take n ms) None))
              \<and> b \<in> set (paths (track (take n ms) None))
            \<longrightarrow> precedes a b (paths (track (take n ms) None)))"
proof -
  let ?p = "take n ms"
  from assms have cons: "consistent ?p" by (rule consistent_take)
  then have dist: "distinct (recorded ?p)" by (simp add: consistent_def)
  have eq: "paths (track ?p None) = filter (\<lambda>k. k \<notin> set (completed ?p)) (recorded ?p)"
    using cons by (rule track_filter)
  have mem: "set (paths (track ?p None)) = set (recorded ?p) - set (completed ?p)"
    unfolding eq by auto
  have d: "distinct (paths (track ?p None))"
    unfolding eq using dist by simp
  have ord: "precedes a b (paths (track ?p None))"
    if "precedes a b (recorded ?p)" "a \<in> set (paths (track ?p None))"
       "b \<in> set (paths (track ?p None))" for a b
  proof -
    from that(2,3) have "a \<notin> set (completed ?p)" "b \<notin> set (completed ?p)"
      unfolding mem by auto
    with precedes_filter [OF dist that(1), of "\<lambda>k. k \<notin> set (completed ?p)"]
    show ?thesis unfolding eq by simp
  qed
  from eq mem d ord show ?thesis by blast
qed

theorem sequence_invariant_witness:
  "consistent [Found ''a'', Found ''b'', Found ''c'', Finished ''b'', Found ''d'', Finished ''a'']
   \<and> paths (track (take 5 [Found ''a'', Found ''b'', Found ''c'', Finished ''b'', Found ''d'',
        Finished ''a'']) None) = [''a'', ''c'', ''d'']
   \<and> paths (track (take 6 [Found ''a'', Found ''b'', Found ''c'', Finished ''b'', Found ''d'',
        Finished ''a'']) None) = [''c'', ''d'']"
proof -
  let ?ms = "[Found ''a'', Found ''b'', Found ''c'', Finished ''b'', Found ''d'', Finished ''a'']"
  have c: "consistent ?ms" by (simp add: consistent_def)
  from sequence_invariant [OF c, of 5] sequence_invariant [OF c, of 6] c
  show ?thesis by simp
qed

text \<open>
  C2.  In every run of record and complete messages, also one that is not consistent, at every
  instant: when the head of the In-Progress Sequence is \<open>K\<close>, every key recorded before \<open>K\<close> was
  recorded has been completed.
\<close>

theorem resume_safety:
  "paths (track (take n ms) None) = K # rest \<Longrightarrow>
   set (takeWhile (\<lambda>k. k \<noteq> K) (recorded (take n ms))) \<subseteq> set (completed (take n ms))"
  using erased_head [OF track_erased] by blast

theorem resume_safety_witness:
  "paths (track (take 5 [Found ''a'', Found ''b'', Found ''c'', Finished ''b'', Finished ''a'',
      Found ''d'']) None) = ''c'' # []
   \<and> set (takeWhile (\<lambda>k. k \<noteq> ''c'') (recorded (take 5 [Found ''a'', Found ''b'', Found ''c'',
      Finished ''b'', Finished ''a'', Found ''d'']))) = {''a'', ''b''}
   \<and> {''a'', ''b''} \<subseteq> set (completed (take 5 [Found ''a'', Found ''b'', Found ''c'',
      Finished ''b'', Finished ''a'', Found ''d'']))"
proof -
  let ?ms = "[Found ''a'', Found ''b'', Found ''c'', Finished ''b'', Finished ''a'', Found ''d'']"
  have h: "paths (track (take 5 ?ms) None) = ''c'' # []"
    by (simp add: track_def on_found_def)
  from resume_safety [OF h] h show ?thesis by auto
qed

text \<open>
  C10.  A completion for a key that is not in the In-Progress Sequence leaves the list as it
  is, cell for cell.  A completion for a key that is in it takes out the first cell with that
  key and nothing else: the keys before it and the keys after it stay, in their order.
\<close>

theorem completion_frame:
  "(k \<notin> set (paths first) \<longrightarrow> on_finished k first = first)
   \<and> (k \<in> set (paths first) \<longrightarrow>
        (\<exists>us vs. paths first = us @ k # vs \<and> k \<notin> set us
                 \<and> paths (on_finished k first) = us @ vs))"
  using on_finished_absent [of k first] remove1_split [of k "paths first"]
  by (simp add: paths_on_finished)

theorem completion_frame_witness:
  "''z'' \<notin> set (paths (track [Found ''a'', Found ''b'', Found ''a'', Found ''c''] None))
   \<and> on_finished ''z'' (track [Found ''a'', Found ''b'', Found ''a'', Found ''c''] None)
       = track [Found ''a'', Found ''b'', Found ''a'', Found ''c''] None
   \<and> ''b'' \<in> set (paths (track [Found ''a'', Found ''b'', Found ''a'', Found ''c''] None))
   \<and> paths (on_finished ''a'' (track [Found ''a'', Found ''b'', Found ''a'', Found ''c''] None))
       = [''b'', ''a'', ''c'']"
  using completion_frame [of "''z''" "track [Found ''a'', Found ''b'', Found ''a'', Found ''c''] None"]
    completion_frame [of "''a''" "track [Found ''a'', Found ''b'', Found ''a'', Found ''c''] None"]
  by (simp add: track_def on_found_def)

section \<open>The claims about discovery\<close>

text \<open>
  C5.  \<open>process\<close> forwards the key of an entry to extraction exactly when the walk met no
  error at the entry, the key ends with \<open>.wsp\<close>, it does not contain the exclude string when
  one is set, it contains the include string (the empty string is in every key), and no
  skip-until cursor is active for it: the cursor is unset, or the key is the cursor itself.
\<close>

theorem forwarding_filter:
  "Send_whisperFiles path \<in> set (fst (snd (process cfg st path err))) \<longleftrightarrow>
     err = None
     \<and> suffix ''.wsp'' path
     \<and> \<not> (exclude_flag cfg \<noteq> [] \<and> sublist (exclude_flag cfg) path)
     \<and> sublist (include_flag cfg) path
     \<and> \<not> (skipUntil st \<noteq> [] \<and> skipUntil st \<noteq> path)"
  by (auto simp: process_def Let_def HasSuffix_suffix Contains_sublist)

text \<open>
  C5, as stated without the walk's error: the key \<open>/w/a.wsp\<close> meets all four conditions, with
  no filter and no cursor set, and is not forwarded, because the walk met an error at the entry
  (line 246).
\<close>

theorem forwarding_filter_counterexample:
  "suffix ''.wsp'' ''/w/a.wsp''
   \<and> \<not> (exclude_flag \<lparr>include_flag = [], exclude_flag = [], all_flag = False,
            skipInfluxErrors = False, skipWhisperErrors = False\<rparr> \<noteq> []
        \<and> sublist (exclude_flag \<lparr>include_flag = [], exclude_flag = [], all_flag = False,
            skipInfluxErrors = False, skipWhisperErrors = False\<rparr>) ''/w/a.wsp'')
   \<and> sublist (include_flag \<lparr>include_flag = [], exclude_flag = [], all_flag = False,
            skipInfluxErrors = False, skipWhisperErrors = False\<rparr>) ''/w/a.wsp''
   \<and> \<not> (skipUntil \<lparr>skipUntil = [], skipCounter = 0\<rparr> \<noteq> []
        \<and> skipUntil \<lparr>skipUntil = [], skipCounter = 0\<rparr> \<noteq> ''/w/a.wsp'')
   \<and> Send_whisperFiles ''/w/a.wsp'' \<notin> set (fst (snd (process
         \<lparr>include_flag = [], exclude_flag = [], all_flag = False,
            skipInfluxErrors = False, skipWhisperErrors = False\<rparr>
         \<lparr>skipUntil = [], skipCounter = 0\<rparr> ''/w/a.wsp''
         (Some ''lstat /w/a.wsp: no such file or directory''))))"
  by (simp add: process_def HasSuffix_suffix [symmetric] HasSuffix_def)

text \<open>
  C9.  In what the walk sends, every send of a key on \<open>whisperFiles\<close> comes directly after the
  send of the same key on \<open>foundFiles\<close>.  Hence, in every run of the program in which the walker
  has sent some first part of that and the pools have reported only paths taken from the work
  queue before, the tracker receives the completion of a key only after its record.
\<close>

theorem recorded_before_queued:
  "(discovery cfg su entries = xs @ Send_whisperFiles k # ys \<longrightarrow>
      (\<exists>zs. xs = zs @ [Send_foundFiles k]))
   \<and> (prefix (walker_sends g) (walker_sends (discovery cfg su entries))
        \<and> taken_before_finished [] g \<longrightarrow> completes_after [] (file_msgs g))"
proof -
  from discovery_pairs [of cfg su entries] obtain ks fin
    where d: "discovery cfg su entries =
                concat (map (\<lambda>k. [Send_foundFiles k, Send_whisperFiles k]) ks) @ fin"
      and fin: "fin = [] \<or> fin = [Send_exit 2]" by blast
  have 1: "\<exists>zs. xs = zs @ [Send_foundFiles k]"
    if "discovery cfg su entries = xs @ Send_whisperFiles k # ys"
    using pairs_split [of ks fin xs k ys 2] that d fin by simp
  have 2: "completes_after [] (file_msgs g)"
    if p: "prefix (walker_sends g) (walker_sends (discovery cfg su entries))"
      and t: "taken_before_finished [] g"
  proof -
    from d fin have "walker_sends (discovery cfg su entries) =
        concat (map (\<lambda>k. [Send_foundFiles k, Send_whisperFiles k]) ks)"
      using walker_sends_pairs [of fin 2 ks] by simp
    with p obtain rest where
      "concat (map (\<lambda>k. [Send_foundFiles k, Send_whisperFiles k]) ks) = walker_sends g @ rest"
      by (auto simp: prefix_def)
    with found_first_pairs [of "[]" ks] have "found_first [] (walker_sends g @ rest)" by simp
    then have "found_first [] (walker_sends g)" by (rule found_first_prefix)
    from schedule_consistent [OF this t] show ?thesis by simp
  qed
  from 1 2 show ?thesis by blast
qed

theorem recorded_before_queued_witness:
  "discovery \<lparr>include_flag = [], exclude_flag = ''tmp'', all_flag = False,
       skipInfluxErrors = False, skipWhisperErrors = False\<rparr> []
     [(''/w'', None), (''/w/a.wsp'', None), (''/w/tmp.wsp'', None), (''/w/c.wsp'', None)]
     = [Send_foundFiles ''/w/a.wsp'', Send_whisperFiles ''/w/a.wsp'',
        Send_foundFiles ''/w/c.wsp''] @ Send_whisperFiles ''/w/c.wsp'' # []
   \<and> (\<exists>zs. [Send_foundFiles ''/w/a.wsp'', Send_whisperFiles ''/w/a.wsp'',
        Send_foundFiles ''/w/c.wsp''] = zs @ [Send_foundFiles ''/w/c.wsp''])
   \<and> taken_before_finished []
        [Send_foundFiles ''/w/a.wsp'', Send_whisperFiles ''/w/a.wsp'',
         Send_foundFiles ''/w/c.wsp'', Send_finishedFiles ''/w/a.wsp'',
         Send_whisperFiles ''/w/c.wsp'']
   \<and> completes_after [] (file_msgs
        [Send_foundFiles ''/w/a.wsp'', Send_whisperFiles ''/w/a.wsp'',
         Send_foundFiles ''/w/c.wsp'', Send_finishedFiles ''/w/a.wsp'',
         Send_whisperFiles ''/w/c.wsp''])"
proof -
  let ?cfg = "\<lparr>include_flag = [], exclude_flag = ''tmp'', all_flag = False,
       skipInfluxErrors = False, skipWhisperErrors = False\<rparr>"
  let ?entries = "[(''/w'', None), (''/w/a.wsp'', None), (''/w/tmp.wsp'', None),
       (''/w/c.wsp'', None)]"
  let ?g = "[Send_foundFiles ''/w/a.wsp'', Send_whisperFiles ''/w/a.wsp'',
         Send_foundFiles ''/w/c.wsp'', Send_finishedFiles ''/w/a.wsp'',
         Send_whisperFiles ''/w/c.wsp'']"
  have d: "discovery ?cfg [] ?entries
     = [Send_foundFiles ''/w/a.wsp'', Send_whisperFiles ''/w/a.wsp'',
        Send_foundFiles ''/w/c.wsp''] @ Send_whisperFiles ''/w/c.wsp'' # []"
    by (simp add: discovery_def process_def HasSuffix_def HasPrefix_def)
  have t: "taken_before_finished [] ?g" by simp
  have p: "prefix (walker_sends ?g) (walker_sends (discovery ?cfg [] ?entries))"
    unfolding d by simp
  from recorded_before_queued [of ?cfg "[]" ?entries _ "''/w/c.wsp''" "[]" ?g] d t p
  show ?thesis by simp
qed

section \<open>The claims about the two pools\<close>

text \<open>
  C3.  With \<open>all\<close> set, when the file opens and every archive is dumped without error, the serie
  forwarded for the path holds the dumps of the archives, each without its no-data records,
  from the last archive (the coarsest) to archive 0 (the finest).  So a point of a finer
  archive stands after every point of a coarser one, in particular after one with the same
  timestamp.
\<close>

theorem full_dump_order:
  assumes "all_flag cfg" and "Open_err src = None" and "OpenWhisper_err src = None"
    and "\<forall>a\<in>set (DumpArchive src). snd a = None"
  shows "whisperWorker_file cfg src path =
           ([Send_influxSeries (AbstractSerie path
               (concat (map (\<lambda>a. data_points (fst a)) (rev (DumpArchive src)))))], True)
       \<and> (\<forall>i j p q. i < j \<and> j < length (DumpArchive src)
              \<and> p \<in> set (data_points (fst (DumpArchive src ! i)))
              \<and> q \<in> set (data_points (fst (DumpArchive src ! j)))
            \<longrightarrow> (\<exists>xs ys zs.
                  concat (map (\<lambda>a. data_points (fst a)) (rev (DumpArchive src)))
                    = xs @ q # ys @ p # zs))"
proof -
  from assms(4) have "\<forall>i<length (DumpArchive src). snd (DumpArchive src ! i) = None"
    by simp
  from dump_loop_ok [OF order_refl this, of "skipWhisperErrors cfg" "[]"] assms(1-3)
  have "whisperWorker_file cfg src path =
           ([Send_influxSeries (AbstractSerie path
               (concat (map (\<lambda>a. data_points (fst a)) (rev (DumpArchive src)))))], True)"
    by (simp add: whisperWorker_file_def)
  moreover have "\<exists>xs ys zs.
      concat (map (\<lambda>a. data_points (fst a)) (rev (DumpArchive src))) = xs @ q # ys @ p # zs"
    if "i < j" "j < length (DumpArchive src)"
      "p \<in> set (data_points (fst (DumpArchive src ! i)))"
      "q \<in> set (data_points (fst (DumpArchive src ! j)))" for i j p q
    using that by (rule concat_order)
  ultimately show ?thesis by blast
qed

theorem full_dump_order_witness:
  "whisperWorker_file
     \<lparr>include_flag = [], exclude_flag = [], all_flag = True,
        skipInfluxErrors = False, skipWhisperErrors = False\<rparr>
     \<lparr>Open_err = None, OpenWhisper_err = None,
        DumpArchive =
          [([\<lparr>Timestamp = 60, Value = 1\<rparr>, \<lparr>Timestamp = 0, Value = 0\<rparr>,
             \<lparr>Timestamp = 120, Value = 2\<rparr>], None),
           ([\<lparr>Timestamp = 0, Value = 0\<rparr>, \<lparr>Timestamp = 120, Value = 7\<rparr>], None)],
        FetchUntil = ([], None)\<rparr>
     ''/w/a.wsp''
   = ([Send_influxSeries (AbstractSerie ''/w/a.wsp''
       [\<lparr>Timestamp = 120, Value = 7\<rparr>, \<lparr>Timestamp = 60, Value = 1\<rparr>,
        \<lparr>Timestamp = 120, Value = 2\<rparr>])], True)"
proof -
  let ?cfg = "\<lparr>include_flag = [], exclude_flag = [], all_flag = True,
        skipInfluxErrors = False, skipWhisperErrors = False\<rparr>"
  let ?src = "\<lparr>Open_err = None, OpenWhisper_err = None,
        DumpArchive =
          [([\<lparr>Timestamp = 60, Value = 1\<rparr>, \<lparr>Timestamp = 0, Value = 0\<rparr>,
             \<lparr>Timestamp = 120, Value = 2\<rparr>], None),
           ([\<lparr>Timestamp = 0, Value = 0\<rparr>, \<lparr>Timestamp = 120, Value = 7\<rparr>], None)],
        FetchUntil = ([], None)\<rparr>"
  have "all_flag ?cfg" "Open_err ?src = None" "OpenWhisper_err ?src = None"
    "\<forall>a\<in>set (DumpArchive ?src). snd a = None" by simp_all
  from full_dump_order [OF this, of "''/w/a.wsp''"] show ?thesis
    by (simp add: data_points_def)
qed




text \<open>
  C6.  With \<open>skipWhisperErrors\<close> set, a path for which \<open>os.Open\<close> or \<open>whisper.OpenWhisper\<close>
  fails, or for which \<open>FetchUntil\<close> fails when \<open>all\<close> is not set, makes the two pools do
  nothing: no serie is forwarded, nothing is sent on \<open>finishedFiles\<close>, and the worker goes on
  with the next path.  What the pools do for a path only ever reports that path, and a key that
  is in the In-Progress Sequence stays in it as long as no completion for it arrives.  With
  \<open>skipWhisperErrors\<close> not set, any of these failures, and also a failed dump of an archive,
  makes the send of 2 on \<open>exit\<close> the first thing the worker does for the path.
\<close>

theorem read_failure_policy:
  "(skipWhisperErrors cfg
      \<and> (Open_err src \<noteq> None \<or> OpenWhisper_err src \<noteq> None
           \<or> (\<not> all_flag cfg \<and> snd (FetchUntil src) \<noteq> None))
    \<longrightarrow> whisperWorker_file cfg src path = ([], True)
        \<and> unit_actions cfg src Write_err path fuel = []
        \<and> (reader path = src
              \<longrightarrow> whisperWorker cfg reader (path # ps) = whisperWorker cfg reader ps))
   \<and> (Send_finishedFiles p \<in> set (unit_actions cfg src Write_err path fuel) \<longrightarrow> p = path)
   \<and> (path \<in> set (paths first) \<and> Finished path \<notin> set ms
        \<longrightarrow> path \<in> set (paths (track ms first)))
   \<and> (\<not> skipWhisperErrors cfg
      \<and> (Open_err src \<noteq> None \<or> OpenWhisper_err src \<noteq> None
           \<or> (all_flag cfg \<and> (\<exists>a\<in>set (DumpArchive src). snd a \<noteq> None))
           \<or> (\<not> all_flag cfg \<and> snd (FetchUntil src) \<noteq> None))
    \<longrightarrow> (\<exists>rest. fst (whisperWorker_file cfg src path) = Send_exit 2 # rest)
        \<and> (\<exists>rest. unit_actions cfg src Write_err path fuel = Send_exit 2 # rest)
        \<and> (reader path = src
              \<longrightarrow> (\<exists>rest. whisperWorker cfg reader (path # ps) = Send_exit 2 # rest)))"
proof -
  have 1: "whisperWorker_file cfg src path = ([], True)
        \<and> unit_actions cfg src Write_err path fuel = []
        \<and> (reader path = src
              \<longrightarrow> whisperWorker cfg reader (path # ps) = whisperWorker cfg reader ps)"
    if "skipWhisperErrors cfg"
      "Open_err src \<noteq> None \<or> OpenWhisper_err src \<noteq> None
           \<or> (\<not> all_flag cfg \<and> snd (FetchUntil src) \<noteq> None)"
    using whisperWorker_file_skip [OF that, of path] by (simp add: unit_actions_def)
  have 2: "p = path" if "Send_finishedFiles p \<in> set (unit_actions cfg src Write_err path fuel)"
    using that by (rule unit_actions_finished)
  have 3: "path \<in> set (paths (track ms first))"
    if "path \<in> set (paths first)" "Finished path \<notin> set ms"
    using that by (rule track_keeps)
  have 4: "(\<exists>rest. fst (whisperWorker_file cfg src path) = Send_exit 2 # rest)
        \<and> (\<exists>rest. unit_actions cfg src Write_err path fuel = Send_exit 2 # rest)
        \<and> (reader path = src
              \<longrightarrow> (\<exists>rest. whisperWorker cfg reader (path # ps) = Send_exit 2 # rest))"
    if s: "\<not> skipWhisperErrors cfg"
      and f: "Open_err src \<noteq> None \<or> OpenWhisper_err src \<noteq> None
           \<or> (all_flag cfg \<and> (\<exists>a\<in>set (DumpArchive src). snd a \<noteq> None))
           \<or> (\<not> all_flag cfg \<and> snd (FetchUntil src) \<noteq> None)"
  proof -
    from whisperWorker_file_fatal [OF s f, of path] obtain rest
      where r: "fst (whisperWorker_file cfg src path) = Send_exit 2 # rest" by blast
    then have a: "\<exists>rest. fst (whisperWorker_file cfg src path) = Send_exit 2 # rest" by blast
    from r have b: "\<exists>rest. unit_actions cfg src Write_err path fuel = Send_exit 2 # rest"
      by (simp add: unit_actions_def)
    have c: "\<exists>rest. whisperWorker cfg reader (path # ps) = Send_exit 2 # rest"
      if "reader path = src"
      using whisperWorker_fatal [of cfg reader path ps] s f that by simp
    from a b c show ?thesis by blast
  qed
  from 1 2 3 4 show ?thesis by blast
qed

theorem read_failure_policy_witness:
  "unit_actions
      \<lparr>include_flag = [], exclude_flag = [], all_flag = False,
         skipInfluxErrors = False, skipWhisperErrors = True\<rparr>
      \<lparr>Open_err = None, OpenWhisper_err = None, DumpArchive = [],
         FetchUntil = ([], Some ''read error'')\<rparr>
      (\<lambda>n. None) ''/w/c.wsp'' 3 = []
   \<and> ''/w/c.wsp'' \<in> set (paths (track
        [Found ''/w/a.wsp'', Found ''/w/b.wsp'', Finished ''/w/b.wsp'', Finished ''/w/a.wsp'']
        (track [Found ''/w/c.wsp''] None)))
   \<and> unit_actions
      \<lparr>include_flag = [], exclude_flag = [], all_flag = True,
         skipInfluxErrors = False, skipWhisperErrors = False\<rparr>
      \<lparr>Open_err = None, OpenWhisper_err = None,
         DumpArchive = [([\<lparr>Timestamp = 60, Value = 1\<rparr>], None), ([], Some ''read error'')],
         FetchUntil = ([], None)\<rparr>
      (\<lambda>n. None) ''/w/c.wsp'' 3
     = Send_exit 2 #
       [Send_influxSeries (AbstractSerie ''/w/c.wsp'' [\<lparr>Timestamp = 60, Value = 1\<rparr>]),
        Influx_Write (AbstractSerie ''/w/c.wsp'' [\<lparr>Timestamp = 60, Value = 1\<rparr>]),
        Send_finishedFiles ''/w/c.wsp'']"
proof -
  let ?skip = "\<lparr>include_flag = [], exclude_flag = [], all_flag = False,
         skipInfluxErrors = False, skipWhisperErrors = True\<rparr>"
  let ?range = "\<lparr>Open_err = None, OpenWhisper_err = None, DumpArchive = [],
         FetchUntil = ([], Some ''read error'')\<rparr>"
  let ?fail = "\<lparr>include_flag = [], exclude_flag = [], all_flag = True,
         skipInfluxErrors = False, skipWhisperErrors = False\<rparr>"
  let ?dump = "\<lparr>Open_err = None, OpenWhisper_err = None,
         DumpArchive = [([\<lparr>Timestamp = 60, Value = 1\<rparr>], None), ([], Some ''read error'')],
         FetchUntil = ([], None)\<rparr>"
  let ?ms = "[Found ''/w/a.wsp'', Found ''/w/b.wsp'', Finished ''/w/b.wsp'',
         Finished ''/w/a.wsp'']"
  have m: "''/w/c.wsp'' \<in> set (paths (track [Found ''/w/c.wsp''] None))"
    by (simp add: track_def on_found_def)
  have u: "unit_actions ?fail ?dump (\<lambda>n. None) ''/w/c.wsp'' 3
     = Send_exit 2 #
       [Send_influxSeries (AbstractSerie ''/w/c.wsp'' [\<lparr>Timestamp = 60, Value = 1\<rparr>]),
        Influx_Write (AbstractSerie ''/w/c.wsp'' [\<lparr>Timestamp = 60, Value = 1\<rparr>]),
        Send_finishedFiles ''/w/c.wsp'']"
    by (simp add: unit_actions_def whisperWorker_file_def influxWorker_serie_def
        numeral_3_eq_3)
  note T = read_failure_policy [where cfg = ?skip and src = ?range and path = "''/w/c.wsp''"
      and Write_err = "\<lambda>n. None" and fuel = 3 and first = "track [Found ''/w/c.wsp''] None"
      and ms = ?ms and p = "''/w/c.wsp''" and reader = "\<lambda>p. ?range" and ps = "[]"]
  from T [THEN conjunct1] have 1: "unit_actions ?skip ?range (\<lambda>n. None) ''/w/c.wsp'' 3 = []"
    by simp
  from T [THEN conjunct2, THEN conjunct2, THEN conjunct1] m
  have 2: "''/w/c.wsp'' \<in> set (paths (track ?ms (track [Found ''/w/c.wsp''] None)))"
    by simp
  from 1 2 u show ?thesis by (intro conjI)
qed

text \<open>
  C6, as stated for every read failure: with \<open>all\<close> and \<open>skipWhisperErrors\<close> set, the dump of
  archive 1 fails and the unit is not abandoned.  The \<open>continue\<close> of line 201 goes on with
  archive 0, the serie is forwarded with the points of archive 0, written, and the path is
  sent on \<open>finishedFiles\<close>.
\<close>

theorem abandoned_unit_counterexample:
  "skipWhisperErrors \<lparr>include_flag = [], exclude_flag = [], all_flag = True,
        skipInfluxErrors = False, skipWhisperErrors = True\<rparr>
   \<and> snd (DumpArchive \<lparr>Open_err = None, OpenWhisper_err = None,
        DumpArchive = [([\<lparr>Timestamp = 60, Value = 1\<rparr>], None), ([], Some ''read error'')],
        FetchUntil = ([], None)\<rparr> ! 1) = Some ''read error''
   \<and> unit_actions
        \<lparr>include_flag = [], exclude_flag = [], all_flag = True,
           skipInfluxErrors = False, skipWhisperErrors = True\<rparr>
        \<lparr>Open_err = None, OpenWhisper_err = None,
           DumpArchive = [([\<lparr>Timestamp = 60, Value = 1\<rparr>], None), ([], Some ''read error'')],
           FetchUntil = ([], None)\<rparr>
        (\<lambda>n. None) ''/w/a.wsp'' 1
     = [Send_influxSeries (AbstractSerie ''/w/a.wsp'' [\<lparr>Timestamp = 60, Value = 1\<rparr>]),
        Influx_Write (AbstractSerie ''/w/a.wsp'' [\<lparr>Timestamp = 60, Value = 1\<rparr>]),
        Send_finishedFiles ''/w/a.wsp'']"
  by (simp add: unit_actions_def whisperWorker_file_def influxWorker_serie_def)

text \<open>
  C7.  With \<open>skipInfluxErrors\<close> set: as long as the writes fail the worker stays in the loop,
  and after \<open>n\<close> failures it has written the same batch \<open>n\<close> times, each time followed by a
  sleep of 5 seconds, and nothing else; when the write number \<open>n\<close> is the first to succeed, the
  path is sent on \<open>finishedFiles\<close> directly after it.  A path is only ever sent on
  \<open>finishedFiles\<close> after a write that succeeded.  With \<open>skipInfluxErrors\<close> not set, a failed
  write is followed by the send of 2 on \<open>exit\<close>.
\<close>

theorem write_retry_policy:
  "(skipInfluxErrors cfg \<and> (\<forall>i<n. Write_err i \<noteq> None)
      \<longrightarrow> influxWorker_serie cfg Write_err serie n =
            (concat (replicate n [Influx_Write serie, Sleep 5]), False))
   \<and> (skipInfluxErrors cfg \<and> (\<forall>i<n. Write_err i \<noteq> None) \<and> Write_err n = None \<and> n < fuel
      \<longrightarrow> influxWorker_serie cfg Write_err serie fuel =
            (concat (replicate n [Influx_Write serie, Sleep 5])
               @ [Influx_Write serie, Send_finishedFiles (seriePath serie)], True))
   \<and> (skipInfluxErrors cfg
        \<and> Send_finishedFiles p \<in> set (fst (influxWorker_serie cfg Write_err serie fuel))
      \<longrightarrow> p = seriePath serie
          \<and> (\<exists>k<fuel. Write_err k = None \<and> (\<forall>i<k. Write_err i \<noteq> None)))
   \<and> (\<not> skipInfluxErrors cfg \<and> Write_err 0 \<noteq> None \<and> 0 < fuel
      \<longrightarrow> influxWorker_serie cfg Write_err serie fuel =
            ([Influx_Write serie, Send_exit 2, Sleep 100], True))"
proof -
  have 1: "influxWorker_serie cfg Write_err serie n =
            (concat (replicate n [Influx_Write serie, Sleep 5]), False)"
    if "skipInfluxErrors cfg" "\<forall>i<n. Write_err i \<noteq> None"
    using write_loop_retry [of n Write_err 0 serie] that by (simp add: influxWorker_serie_def)
  have 2: "influxWorker_serie cfg Write_err serie fuel =
            (concat (replicate n [Influx_Write serie, Sleep 5])
               @ [Influx_Write serie, Send_finishedFiles (seriePath serie)], True)"
    if "skipInfluxErrors cfg" "\<forall>i<n. Write_err i \<noteq> None" "Write_err n = None" "n < fuel"
    using write_loop_success [of n Write_err 0 fuel serie] that
    by (simp add: influxWorker_serie_def)
  have 3: "p = seriePath serie
          \<and> (\<exists>k<fuel. Write_err k = None \<and> (\<forall>i<k. Write_err i \<noteq> None))"
    if "Send_finishedFiles p \<in> set (fst (influxWorker_serie cfg Write_err serie fuel))"
    using write_loop_finished [of p "skipInfluxErrors cfg" Write_err serie 0 fuel] that
    by (simp add: influxWorker_serie_def)
  have 4: "influxWorker_serie cfg Write_err serie fuel =
            ([Influx_Write serie, Send_exit 2, Sleep 100], True)"
    if "\<not> skipInfluxErrors cfg" "Write_err 0 \<noteq> None" "0 < fuel"
  proof -
    from that(3) obtain f where "fuel = Suc f" by (cases fuel) auto
    with that(1,2) show ?thesis by (auto simp: influxWorker_serie_def)
  qed
  from 1 2 3 4 show ?thesis by blast
qed

theorem write_retry_policy_witness:
  "influxWorker_serie
      \<lparr>include_flag = [], exclude_flag = [], all_flag = False,
         skipInfluxErrors = True, skipWhisperErrors = False\<rparr>
      (\<lambda>n. if n < 2 then Some ''timeout'' else None)
      (AbstractSerie ''/w/a.wsp'' [\<lparr>Timestamp = 60, Value = 1\<rparr>]) 2
    = ([Influx_Write (AbstractSerie ''/w/a.wsp'' [\<lparr>Timestamp = 60, Value = 1\<rparr>]), Sleep 5,
        Influx_Write (AbstractSerie ''/w/a.wsp'' [\<lparr>Timestamp = 60, Value = 1\<rparr>]), Sleep 5],
       False)
   \<and> influxWorker_serie
      \<lparr>include_flag = [], exclude_flag = [], all_flag = False,
         skipInfluxErrors = True, skipWhisperErrors = False\<rparr>
      (\<lambda>n. if n < 2 then Some ''timeout'' else None)
      (AbstractSerie ''/w/a.wsp'' [\<lparr>Timestamp = 60, Value = 1\<rparr>]) 3
    = ([Influx_Write (AbstractSerie ''/w/a.wsp'' [\<lparr>Timestamp = 60, Value = 1\<rparr>]), Sleep 5,
        Influx_Write (AbstractSerie ''/w/a.wsp'' [\<lparr>Timestamp = 60, Value = 1\<rparr>]), Sleep 5,
        Influx_Write (AbstractSerie ''/w/a.wsp'' [\<lparr>Timestamp = 60, Value = 1\<rparr>]),
        Send_finishedFiles ''/w/a.wsp''],
       True)
   \<and> influxWorker_serie
      \<lparr>include_flag = [], exclude_flag = [], all_flag = False,
         skipInfluxErrors = False, skipWhisperErrors = False\<rparr>
      (\<lambda>n. if n < 2 then Some ''timeout'' else None)
      (AbstractSerie ''/w/a.wsp'' [\<lparr>Timestamp = 60, Value = 1\<rparr>]) 3
    = ([Influx_Write (AbstractSerie ''/w/a.wsp'' [\<lparr>Timestamp = 60, Value = 1\<rparr>]),
        Send_exit 2, Sleep 100], True)"
proof -
  let ?on = "\<lparr>include_flag = [], exclude_flag = [], all_flag = False,
         skipInfluxErrors = True, skipWhisperErrors = False\<rparr>"
  let ?off = "\<lparr>include_flag = [], exclude_flag = [], all_flag = False,
         skipInfluxErrors = False, skipWhisperErrors = False\<rparr>"
  let ?W = "\<lambda>n :: nat. if n < 2 then Some ''timeout'' else None"
  let ?s = "AbstractSerie ''/w/a.wsp'' [\<lparr>Timestamp = 60, Value = 1\<rparr>]"
  have r: "replicate 2 [Influx_Write ?s, Sleep 5] = [[Influx_Write ?s, Sleep 5], [Influx_Write ?s, Sleep 5]]"
    by (simp add: numeral_2_eq_2)
  from write_retry_policy [of ?on 2 ?W ?s 3] write_retry_policy [of ?on 2 ?W ?s 2]
    write_retry_policy [of ?off 2 ?W ?s 3] r
  show ?thesis by simp
qed

section \<open>The claims about exits\<close>

text \<open>
  C8.  The tracker, on an exit code, prints the resume line for the head of the In-Progress
  Sequence and calls \<open>os.Exit\<close> with that code; but the goroutine that sent the code runs on,
  and can end the process first.  When the walk meets an error at the root, \<open>main\<close> sends 2 and
  then closes the queues, waits for the idle pools and returns, which ends the process with
  status 0.  When \<open>OpenWhisper\<close> fails without \<open>skipWhisperErrors\<close>, the extract worker sends 2
  and then dereferences the nil \<open>w\<close>.  Only the load worker sleeps after its send (line 144).
\<close>

theorem exit_request_runs_on:
  "main_actions
     \<lparr>include_flag = [], exclude_flag = [], all_flag = False,
        skipInfluxErrors = False, skipWhisperErrors = False\<rparr> []
     [(''/nowhere'', Some ''lstat /nowhere: no such file or directory'')]
   = [Send_exit 2, Close_whisperFiles, Wait_whisperWorkers, Close_influxSeries,
      Wait_influxWorkers, Main_return]
   \<and> whisperWorker
     \<lparr>include_flag = [], exclude_flag = [], all_flag = False,
        skipInfluxErrors = False, skipWhisperErrors = False\<rparr>
     (\<lambda>path. \<lparr>Open_err = None, OpenWhisper_err = Some ''EOF'', DumpArchive = [],
        FetchUntil = ([], None)\<rparr>)
     [''/w/a.wsp'', ''/w/b.wsp'']
   = [Send_exit 2, Panic]
   \<and> keepOrder None [File (Found ''/w/a.wsp''), File (Found ''/w/b.wsp''), Exit 2]
   = Exited [''the next file that needed processing was /w/a.wsp you can resume from there''] 2"
  by (simp add: main_actions_def discovery_def process_def whisperWorker_file_def
      on_found_def on_exit_def resume_line_def)

end
